theory Spec2Isabelle
  imports Complex_Main "HOL-Library.AList" "HOL-Library.Char_ord" "HOL-Library.List_Lexorder"
begin

section \<open>Schematic net overlay: \<^verbatim>\<open>kicad_sch_net_overlay.py\<close>\<close>

text \<open>
  The development follows the pipeline of the script: parser, pin compilation, graph
  builder, breadth-first path resolution, bundle geometry, point chains, labels.
  Python floats are modelled by \<^typ>\<open>real\<close> (exact arithmetic), Python \<^verbatim>\<open>str\<close> by
  \<^typ>\<open>string\<close>, dictionaries by association lists in insertion order or by maps, and
  every \<^verbatim>\<open>raise\<close> by the left injection of a sum.
\<close>

datatype error =
    FileNotFoundError string
  | ValueError string
  | KeyError string
  | ZeroDivisionError

subsection \<open>The \<^verbatim>\<open>math\<close> module, on the reals\<close>

definition radians :: "real \<Rightarrow> real" where
  "radians d = d * pi / 180"

definition degrees :: "real \<Rightarrow> real" where
  "degrees r = r * 180 / pi"



text \<open>\<^verbatim>\<open>math.asin\<close> raises \<^verbatim>\<open>ValueError\<close> outside \<open>[-1, 1]\<close>; float division raises on a zero divisor.\<close>

definition py_asin :: "real \<Rightarrow> error + real" where
  "py_asin x = (if -1 \<le> x \<and> x \<le> 1 then Inr (arcsin x) else Inl (ValueError ''math domain error''))"

definition py_truediv :: "real \<Rightarrow> real \<Rightarrow> error + real" where
  "py_truediv a b = (if b = 0 then Inl ZeroDivisionError else Inr (a / b))"

subsection \<open>Pin compilation (\<^verbatim>\<open>rotate_point\<close>, \<^verbatim>\<open>compile_pin_locations\<close>)\<close>

text \<open>
  A dictionary that is iterated later is an association list in insertion order;
  \<^verbatim>\<open>d[k] = v\<close> is \<^const>\<open>AList.update\<close> (in place for a known key, appended otherwise).
\<close>

type_synonym coords = "real \<times> real"

record lib_instance =
  inst_x :: real
  inst_y :: real
  inst_rotate :: real
  inst_lib_id :: string

definition rotate_point :: "real \<Rightarrow> real \<Rightarrow> real \<Rightarrow> real \<times> real" where
  "rotate_point x y angle_degrees =
     (let angle_rad = radians angle_degrees;
          cos_a = cos angle_rad;
          sin_a = sin angle_rad;
          new_x = x * cos_a - y * sin_a;
          new_y = x * sin_a + y * cos_a
      in (new_x, new_y))"

text \<open>The inner loop over the pins of the library symbol, for one instance.\<close>

definition compile_instance_pins ::
  "lib_instance \<Rightarrow> (string \<times> coords) list \<Rightarrow> (string \<times> coords) list" where
  "compile_instance_pins instance_info pins =
     fold (\<lambda>(pin_name, (pin_x_rel, pin_y_rel)) acc.
             let (rotated_x, rotated_y) = rotate_point pin_x_rel pin_y_rel (inst_rotate instance_info);
                 absolute_x = inst_x instance_info + rotated_x;
                 absolute_y = inst_y instance_info - rotated_y
             in AList.update pin_name (absolute_x, absolute_y) acc)
          pins []"

text \<open>An instance whose \<^verbatim>\<open>lib_id\<close> has no pin data is skipped with a warning.\<close>

definition compile_pin_locations ::
  "(string \<times> (string \<times> coords) list) list \<Rightarrow> (string \<times> lib_instance) list
     \<Rightarrow> (string \<times> (string \<times> coords) list) list" where
  "compile_pin_locations pin_locations_of_lib_symbols locations_of_lib_instances =
     fold (\<lambda>(refdes, instance_info) pin_locations.
             case map_of pin_locations_of_lib_symbols (inst_lib_id instance_info) of
               None \<Rightarrow> pin_locations
             | Some pins \<Rightarrow>
                 AList.update refdes (compile_instance_pins instance_info pins) pin_locations)
          locations_of_lib_instances []"

subsection \<open>Label text (\<^verbatim>\<open>label_svg\<close>, lines 727--740)\<close>

text \<open>\<^verbatim>\<open>str.isspace\<close> on the code points below 256.\<close>

definition py_isspace :: "char \<Rightarrow> bool" where
  "py_isspace c =
     (let n = (of_char c :: nat)
      in (9 \<le> n \<and> n \<le> 13) \<or> (28 \<le> n \<and> n \<le> 32) \<or> n = 133 \<or> n = 160)"

definition py_strip :: "string \<Rightarrow> string" where
  "py_strip s = rev (dropWhile py_isspace (rev (dropWhile py_isspace s)))"

text \<open>\<^verbatim>\<open>s.replace(old, new)\<close> for a one-character \<^verbatim>\<open>old\<close>.\<close>

definition py_replace :: "char \<Rightarrow> string \<Rightarrow> string \<Rightarrow> string" where
  "py_replace old new s = concat (map (\<lambda>c. if c = old then new else [c]) s)"

text \<open>\<^verbatim>\<open>text_str = str(text) if text is not None else ""\<close>, then the placeholder.\<close>

definition label_text_str :: "string option \<Rightarrow> string" where
  "label_text_str text =
     (let text_str = (case text of None \<Rightarrow> [] | Some t \<Rightarrow> t)
      in if py_strip text_str = [] then ''?'' else text_str)"

definition label_text_escaped :: "string option \<Rightarrow> string" where
  "label_text_escaped text =
     py_replace (CHR 0x27) ''&apos;''
       (py_replace (CHR 0x22) ''&quot;''
         (py_replace CHR ''>'' ''&gt;''
           (py_replace CHR ''<'' ''&lt;''
             (py_replace CHR ''&'' ''&amp;'' (label_text_str text)))))"

text \<open>The escaping the specification asks for, one character at a time.\<close>

definition xml_escape_char :: "char \<Rightarrow> string" where
  "xml_escape_char c =
     (if c = CHR ''&'' then ''&amp;''
      else if c = CHR ''<'' then ''&lt;''
      else if c = CHR ''>'' then ''&gt;''
      else if c = CHR 0x22 then ''&quot;''
      else if c = CHR 0x27 then ''&apos;''
      else [c])"

subsection \<open>Graph, requested connections\<close>

record segment_info =
  node_at_end_a :: string
  node_at_end_b :: string

record graph =
  nodes :: "(string \<times> coords) list"
  segments :: "(string \<times> segment_info) list"

datatype direction = A_to_B | B_to_A

text \<open>
  One entry of \<^verbatim>\<open>instances\<close>. The three \<^verbatim>\<open>graph_path\<close> keys are absent (\<open>None\<close>) until the
  path of the connection has been resolved.
\<close>

record net_instance =
  instance_name :: string
  parent_instance :: "string option"
  this_net_from_device_refdes :: string
  this_net_from_device_connector_name :: string
  this_net_to_device_refdes :: string
  this_net_to_device_connector_name :: string
  graph_path_segments :: "string list option"
  graph_path_directions :: "direction list option"
  total_segments :: "nat option"

text \<open>\<^verbatim>\<open>instance.get("graph_path_segments", [])\<close> and its sibling.\<close>

definition path_segments_of :: "net_instance \<Rightarrow> string list" where
  "path_segments_of inst = (case graph_path_segments inst of None \<Rightarrow> [] | Some segs \<Rightarrow> segs)"


subsection \<open>Bundle geometry (lines 934--1073)\<close>

definition segment_spacing_inches :: real where
  "segment_spacing_inches = 0.05"



text \<open>\<^verbatim>\<open>instance.get("parent_instance") or instance.get("instance_name")\<close>.\<close>

definition parent_name :: "net_instance \<Rightarrow> string" where
  "parent_name inst =
     (case parent_instance inst of
        None \<Rightarrow> instance_name inst
      | Some p \<Rightarrow> if p = [] then instance_name inst else p)"

text \<open>The counting loop: the state is \<^verbatim>\<open>(components_seen, components_in_node)\<close>.\<close>

definition count_component ::
  "string list \<Rightarrow> net_instance \<Rightarrow> string list \<times> nat \<Rightarrow> string list \<times> nat" where
  "count_component node_segments inst st =
     (let (components_seen, components_in_node) = st
      in if parent_name inst \<in> set components_seen then st
         else if list_ex (\<lambda>seg_uuid. seg_uuid \<in> set node_segments) (path_segments_of inst)
           then (components_seen @ [parent_name inst], components_in_node + 1)
         else st)"

definition components_in_node :: "string list \<Rightarrow> net_instance list \<Rightarrow> nat" where
  "components_in_node node_segments instances = snd (fold (count_component node_segments) instances ([], 0))"

definition node_radius_inches :: "nat \<Rightarrow> real" where
  "node_radius_inches n = real n powr 0.7 * segment_spacing_inches"

definition node_radius_mm :: "nat \<Rightarrow> real" where
  "node_radius_mm n = node_radius_inches n * 25.4"


definition center_offset_from_count_mm :: "nat \<Rightarrow> nat \<Rightarrow> real" where
  "center_offset_from_count_mm idx num_seg_components =
     (real idx - real num_seg_components / 2 - 0.5) * segment_spacing_inches * 25.4"

text \<open>
  The \<^verbatim>\<open>try\<close> block and its handler: \<^verbatim>\<open>ValueError\<close> and \<^verbatim>\<open>ZeroDivisionError\<close> give 0, any
  other exception would propagate.
\<close>

definition asin_degrees :: "real \<Rightarrow> real \<Rightarrow> error + real" where
  "asin_degrees offset_mm radius_mm =
     (case py_truediv offset_mm radius_mm of
        Inl e \<Rightarrow> Inl e
      | Inr q \<Rightarrow> (case py_asin q of Inl e \<Rightarrow> Inl e | Inr a \<Rightarrow> Inr (degrees a)))"

definition delta_angle_from_count :: "real \<Rightarrow> real \<Rightarrow> error + real" where
  "delta_angle_from_count offset_mm radius_mm =
     (case asin_degrees offset_mm radius_mm of
        Inr d \<Rightarrow> Inr d
      | Inl (ValueError _) \<Rightarrow> Inr 0
      | Inl ZeroDivisionError \<Rightarrow> Inr 0
      | Inl e \<Rightarrow> Inl e)"

text \<open>A loop whose body may raise: the first error ends it.\<close>

fun fold_err :: "('a \<Rightarrow> 's \<Rightarrow> error + 's) \<Rightarrow> 'a list \<Rightarrow> 's \<Rightarrow> error + 's" where
  "fold_err f [] s = Inr s"
| "fold_err f (x # xs) s = (case f x s of Inl e \<Rightarrow> Inl e | Inr s' \<Rightarrow> fold_err f xs s')"

text \<open>
  \<^verbatim>\<open>points_to_pass_through[node_id][seg_uuid][inst_name]\<close>: the nested dictionary, built
  with \<^verbatim>\<open>setdefault\<close>, is a map on the triple of keys.
\<close>

type_synonym points = "string \<times> string \<times> string \<rightharpoonup> coords"

definition circle_intersect :: "coords \<Rightarrow> real \<Rightarrow> real \<Rightarrow> coords" where
  "circle_intersect node_mm radius_mm final_angle =
     (let x_circleintersect = fst node_mm + radius_mm * cos (radians final_angle);
          y_circleintersect = snd node_mm + radius_mm * sin (radians final_angle)
      in (x_circleintersect, - y_circleintersect))"

text \<open>The loop \<^verbatim>\<open>for idx, inst_name in enumerate(instances_using_segment, start=1)\<close>.\<close>

fun place_instances ::
  "string \<Rightarrow> coords \<Rightarrow> real \<Rightarrow> real \<Rightarrow> string \<Rightarrow> nat \<Rightarrow> nat \<Rightarrow> string list \<Rightarrow> points
     \<Rightarrow> error + points" where
  "place_instances node_id node_mm radius_mm seg_angle seg_uuid num_seg_components idx [] pts = Inr pts"
| "place_instances node_id node_mm radius_mm seg_angle seg_uuid num_seg_components idx
     (inst_name # rest) pts =
     (case delta_angle_from_count (center_offset_from_count_mm idx num_seg_components) radius_mm of
        Inl e \<Rightarrow> Inl e
      | Inr delta \<Rightarrow>
          place_instances node_id node_mm radius_mm seg_angle seg_uuid num_seg_components (idx + 1) rest
            (pts((node_id, seg_uuid, inst_name) \<mapsto>
               circle_intersect node_mm radius_mm (seg_angle + delta))))"










subsection \<open>Point chains (lines 1136--1230)\<close>


text \<open>The first argument of the next three functions is \<^verbatim>\<open>math.atan2\<close>.\<close>

definition tangent_ab :: "(real \<Rightarrow> real \<Rightarrow> real) \<Rightarrow> coords \<Rightarrow> coords \<Rightarrow> real" where
  "tangent_ab atan2 node_a_coords node_b_coords =
     (let dx = (fst node_b_coords - fst node_a_coords) * 25.4;
          dy = (snd node_b_coords - snd node_a_coords) * 25.4
      in - degrees (atan2 dy dx))"





subsection \<open>Graph builder (\<^verbatim>\<open>build_graph\<close>, lines 346--431)\<close>

text \<open>
  \<^verbatim>\<open>round(x)\<close> rounds to the nearest integer, a tie going to the even one;
  \<^verbatim>\<open>round(x, n)\<close> does the same at the \<open>n\<close>-th decimal.
\<close>

definition py_round :: "real \<Rightarrow> int" where
  "py_round x =
     (let f = \<lfloor>x\<rfloor>; d = x - of_int f
      in if d < 1 / 2 then f
         else if 1 / 2 < d then f + 1
         else if even f then f else f + 1)"

definition py_round_ndigits :: "real \<Rightarrow> nat \<Rightarrow> real" where
  "py_round_ndigits x n = of_int (py_round (x * 10 ^ n)) / 10 ^ n"

definition OUTPUT_PRECISION :: nat where
  "OUTPUT_PRECISION = 5"
















definition at_output_precision :: "real \<Rightarrow> bool" where
  "at_output_precision v \<longleftrightarrow> py_round_ndigits v OUTPUT_PRECISION = v"








subsection \<open>Path resolution (lines 860--930)\<close>

type_synonym bfs_path = "(string \<times> direction) list"

text \<open>The two tests on one segment inside the \<^verbatim>\<open>for\<close> loop of the search.\<close>

definition bfs_next :: "string \<Rightarrow> string set \<Rightarrow> segment_info \<Rightarrow> (string \<times> direction) option" where
  "bfs_next current_node visited info =
     (if node_at_end_a info = current_node \<and> node_at_end_b info \<notin> visited
        then Some (node_at_end_b info, A_to_B)
      else if node_at_end_b info = current_node \<and> node_at_end_a info \<notin> visited
        then Some (node_at_end_a info, B_to_A)
      else None)"

text \<open>
  The \<^verbatim>\<open>for\<close> loop over \<^verbatim>\<open>graph["segments"]\<close> for one dequeued node; the state is
  \<^verbatim>\<open>(visited, queue)\<close>. The test \<^verbatim>\<open>if next_node:\<close> is false for \<^verbatim>\<open>None\<close> and for the empty
  string.
\<close>

fun bfs_expand ::
  "string \<Rightarrow> bfs_path \<Rightarrow> (string \<times> segment_info) list
     \<Rightarrow> string set \<times> (string \<times> bfs_path) list \<Rightarrow> string set \<times> (string \<times> bfs_path) list" where
  "bfs_expand current_node current_path [] st = st"
| "bfs_expand current_node current_path ((segment_uuid, info) # rest) (visited, queue) =
     (case bfs_next current_node visited info of
        None \<Rightarrow> bfs_expand current_node current_path rest (visited, queue)
      | Some (next_node, direction) \<Rightarrow>
          if next_node \<noteq> [] then
            bfs_expand current_node current_path rest
              (insert next_node visited,
               queue @ [(next_node, current_path @ [(segment_uuid, direction)])])
          else bfs_expand current_node current_path rest (visited, queue))"

definition seg_nodes :: "(string \<times> segment_info) list \<Rightarrow> string set" where
  "seg_nodes segs = (node_at_end_a \<circ> snd) ` set segs \<union> (node_at_end_b \<circ> snd) ` set segs"

lemma bfs_next_fresh:
  "bfs_next cur visited info = Some (n, d) \<Longrightarrow>
     n \<notin> visited \<and> n \<in> {node_at_end_a info, node_at_end_b info}"
  by (auto simp: bfs_next_def split: if_splits)

lemma bfs_expand_measure:
  assumes "bfs_expand cur cp rest (visited, queue) = (visited', queue')"
    and "seg_nodes rest \<subseteq> N" and "finite N"
  shows "2 * card (N - visited') + length queue' \<le> 2 * card (N - visited) + length queue"
  using assms(1,2)
proof (induction rest arbitrary: visited queue)
  case Nil
  then show ?case by simp
next
  case (Cons s rest)
  obtain u info where s: "s = (u, info)" by (cases s)
  have sub: "seg_nodes rest \<subseteq> N" and ends: "node_at_end_a info \<in> N" "node_at_end_b info \<in> N"
    using Cons.prems(2) by (auto simp: seg_nodes_def s)
  show ?case
  proof (cases "bfs_next cur visited info")
    case None
    then show ?thesis using Cons.IH [OF _ sub] Cons.prems(1) by (simp add: s)
  next
    case (Some nd)
    obtain n d where nd: "nd = (n, d)" by (cases nd)
    show ?thesis
    proof (cases "n = []")
      case True
      then show ?thesis using Cons.IH [OF _ sub] Cons.prems(1) Some by (simp add: s nd)
    next
      case False
      have fresh: "n \<notin> visited" "n \<in> N"
        using bfs_next_fresh [of cur visited info n d] Some nd ends by auto
      have "bfs_expand cur cp rest (insert n visited, queue @ [(n, cp @ [(u, d)])]) = (visited', queue')"
        using Cons.prems(1) Some False by (simp add: s nd)
      then have le: "2 * card (N - visited') + length queue'
                  \<le> 2 * card (N - insert n visited) + length (queue @ [(n, cp @ [(u, d)])])"
        by (rule Cons.IH [OF _ sub])
      have "N - insert n visited \<subset> N - visited" using fresh by auto
      then have "card (N - insert n visited) < card (N - visited)"
        using assms(3) by (simp add: psubset_card_mono)
      then show ?thesis using le by simp
    qed
  qed
qed

text \<open>
  The \<^verbatim>\<open>while queue and not found_path\<close> loop. \<open>None\<close> is the exit with an empty queue
  (\<^verbatim>\<open>found_path\<close> still false), \<open>Some\<close> the path found.
\<close>

function bfs_loop ::
  "(string \<times> segment_info) list \<Rightarrow> string \<Rightarrow> (string \<times> bfs_path) list \<Rightarrow> string set
     \<Rightarrow> bfs_path option" where
  "bfs_loop segs to_node_id [] visited = None"
| "bfs_loop segs to_node_id ((current_node, current_path) # queue) visited =
     (if current_node = to_node_id then Some current_path
      else (case bfs_expand current_node current_path segs (visited, queue) of
              (visited', queue') \<Rightarrow> bfs_loop segs to_node_id queue' visited'))"
  by pat_completeness auto
termination
proof (relation "measure (\<lambda>(segs, to_node_id, queue, visited).
                   2 * card (seg_nodes segs - visited) + length queue)", goal_cases)
  case 1
  show ?case by simp
next
  case (2 segs to_node_id current_node current_path queue visited visited' queue')
  have "finite (seg_nodes segs)" by (simp add: seg_nodes_def)
  then have "2 * card (seg_nodes segs - visited') + length queue'
        \<le> 2 * card (seg_nodes segs - visited) + length queue"
    using bfs_expand_measure [of current_node current_path segs visited queue visited' queue'
        "seg_nodes segs"] 2 by simp
  then show ?case by simp
qed

definition node_id_of :: "string \<Rightarrow> string \<Rightarrow> string" where
  "node_id_of refdes connector_name = refdes @ ''.'' @ connector_name"

definition from_node_id :: "net_instance \<Rightarrow> string" where
  "from_node_id inst =
     node_id_of (this_net_from_device_refdes inst) (this_net_from_device_connector_name inst)"

definition to_node_id :: "net_instance \<Rightarrow> string" where
  "to_node_id inst =
     node_id_of (this_net_to_device_refdes inst) (this_net_to_device_connector_name inst)"

text \<open>The body of the loop over \<^verbatim>\<open>instances\<close> for one connection.\<close>

definition resolve_instance :: "graph \<Rightarrow> net_instance \<Rightarrow> error + net_instance" where
  "resolve_instance g inst =
     (if map_of (nodes g) (from_node_id inst) = None then
        Inl (ValueError (''From node '' @ [CHR 0x27] @ from_node_id inst @ [CHR 0x27]
               @ '' not found in graph for '' @ instance_name inst))
      else if map_of (nodes g) (to_node_id inst) = None then
        Inl (ValueError (''To node '' @ [CHR 0x27] @ to_node_id inst @ [CHR 0x27]
               @ '' not found in graph for '' @ instance_name inst))
      else
        (case bfs_loop (segments g) (to_node_id inst) [(from_node_id inst, [])] {from_node_id inst} of
           Some current_path \<Rightarrow>
             Inr (inst\<lparr>graph_path_segments := Some (map fst current_path),
                      graph_path_directions := Some (map snd current_path),
                      total_segments := Some (length current_path)\<rparr>)
         | None \<Rightarrow>
             Inl (ValueError (''No path found for '' @ instance_name inst @ '': ''
                    @ from_node_id inst @ '' '' @ [CHR 0xE2, CHR 0x86, CHR 0x92] @ '' ''
                    @ to_node_id inst))))"

text \<open>
  The loop over all requested connections. An exception leaves the loop and the script;
  the result is then the exception, otherwise the instances with their paths.
\<close>

definition resolve_all :: "graph \<Rightarrow> net_instance list \<Rightarrow> error + net_instance list" where
  "resolve_all g instances =
     fold_err (\<lambda>inst resolved.
                 case resolve_instance g inst of
                   Inl e \<Rightarrow> Inl e
                 | Inr inst' \<Rightarrow> Inr (resolved @ [inst']))
       instances []"

text \<open>
  What a path is: starting at a node, each step takes a segment of the graph from one
  of its ends to the other, in the direction recorded.
\<close>

inductive walk :: "(string \<times> segment_info) list \<Rightarrow> string \<Rightarrow> bfs_path \<Rightarrow> string \<Rightarrow> bool"
  for segs :: "(string \<times> segment_info) list" where
  walk_nil: "walk segs n [] n"
| walk_ab: "(u, info) \<in> set segs \<Longrightarrow> node_at_end_a info = n \<Longrightarrow> walk segs (node_at_end_b info) p m
             \<Longrightarrow> walk segs n ((u, A_to_B) # p) m"
| walk_ba: "(u, info) \<in> set segs \<Longrightarrow> node_at_end_b info = n \<Longrightarrow> walk segs (node_at_end_a info) p m
             \<Longrightarrow> walk segs n ((u, B_to_A) # p) m"

code_pred walk .

subsection \<open>Invariants of the search\<close>

text \<open>
  The notions used to verify the search: adjacency of two nodes, a path that no other path
  between the same nodes undercuts, a visited node all of whose neighbours are visited,
  and the invariants of the outer loop and of the loop over the segments.
\<close>

definition adj :: "(string \<times> segment_info) list \<Rightarrow> string \<Rightarrow> string \<Rightarrow> bool" where
  "adj segs n m \<longleftrightarrow>
     (\<exists>(u, info) \<in> set segs.
        (node_at_end_a info = n \<and> node_at_end_b info = m)
      \<or> (node_at_end_b info = n \<and> node_at_end_a info = m))"

definition minimal :: "(string \<times> segment_info) list \<Rightarrow> string \<Rightarrow> bfs_path \<Rightarrow> string \<Rightarrow> bool" where
  "minimal segs src p v \<longleftrightarrow> (\<forall>r. walk segs src r v \<longrightarrow> length p \<le> length r)"

definition closed_node :: "(string \<times> segment_info) list \<Rightarrow> string set \<Rightarrow> string \<Rightarrow> bool" where
  "closed_node segs vis n \<longleftrightarrow> (\<forall>m. adj segs n m \<longrightarrow> m \<in> vis)"

definition queue_ok ::
  "(string \<times> segment_info) list \<Rightarrow> string \<Rightarrow> string set \<Rightarrow> (string \<times> bfs_path) list \<Rightarrow> bool" where
  "queue_ok segs src vis q \<longleftrightarrow>
     sorted (map (length \<circ> snd) q)
   \<and> (\<forall>(v, p) \<in> set q. walk segs src p v \<and> v \<in> vis \<and> minimal segs src p v)"

definition bfs_inv ::
  "(string \<times> segment_info) list \<Rightarrow> string \<Rightarrow> string \<Rightarrow> string set \<Rightarrow> (string \<times> bfs_path) list \<Rightarrow> bool" where
  "bfs_inv segs src dst vis q \<longleftrightarrow>
     src \<in> vis \<and> queue_ok segs src vis q
   \<and> (\<forall>(v, p) \<in> set q. length p \<le> length (snd (hd q)) + 1)
   \<and> (\<forall>n \<in> vis. n \<notin> fst ` set q \<longrightarrow> closed_node segs vis n \<and> n \<noteq> dst)"

definition expand_inv ::
  "(string \<times> segment_info) list \<Rightarrow> string \<Rightarrow> string \<Rightarrow> string \<Rightarrow> bfs_path
     \<Rightarrow> (string \<times> segment_info) list \<Rightarrow> string set \<Rightarrow> (string \<times> bfs_path) list \<Rightarrow> bool" where
  "expand_inv segs src dst cur cp pre vis q \<longleftrightarrow>
     src \<in> vis \<and> cur \<in> vis \<and> cur \<noteq> dst \<and> walk segs src cp cur \<and> minimal segs src cp cur
   \<and> queue_ok segs src vis q
   \<and> (\<forall>(v, p) \<in> set q. length cp \<le> length p \<and> length p \<le> length cp + 1)
   \<and> (\<forall>n \<in> vis. n \<notin> fst ` set q \<longrightarrow> n \<noteq> cur \<longrightarrow> closed_node segs vis n \<and> n \<noteq> dst)
   \<and> (\<forall>m. adj pre cur m \<longrightarrow> m \<in> vis)"

subsection \<open>Example inputs\<close>

text \<open>Two pins joined by one vertical wire, and the bundle points of one connection on it.\<close>

definition example_line :: graph where
  "example_line =
     \<lparr>nodes = [(''A.1'', (0, 0)), (''B.1'', (0, 1))],
      segments = [(''W1'', \<lparr>node_at_end_a = ''A.1'', node_at_end_b = ''B.1''\<rparr>)]\<rparr>"


text \<open>A requested connection before resolution; a graph with a route of four segments and one of two.\<close>

definition request :: "string \<Rightarrow> string \<Rightarrow> string \<Rightarrow> string \<Rightarrow> string \<Rightarrow> net_instance" where
  "request name from_refdes from_connector to_refdes to_connector =
     \<lparr>instance_name = name, parent_instance = None,
      this_net_from_device_refdes = from_refdes, this_net_from_device_connector_name = from_connector,
      this_net_to_device_refdes = to_refdes, this_net_to_device_connector_name = to_connector,
      graph_path_segments = None, graph_path_directions = None, total_segments = None\<rparr>"

definition two_routes :: graph where
  "two_routes =
     \<lparr>nodes = [(''A.1'', (0, 0)), (''B.1'', (2, 0)), (''wirejunction-0'', (0, 1)),
               (''wirejunction-1'', (1, 1)), (''wirejunction-2'', (2, 1)), (''wirejunction-3'', (1, 0))],
      segments =
        [(''L1'', \<lparr>node_at_end_a = ''A.1'', node_at_end_b = ''wirejunction-0''\<rparr>),
         (''L2'', \<lparr>node_at_end_a = ''wirejunction-0'', node_at_end_b = ''wirejunction-1''\<rparr>),
         (''L3'', \<lparr>node_at_end_a = ''wirejunction-2'', node_at_end_b = ''wirejunction-1''\<rparr>),
         (''L4'', \<lparr>node_at_end_a = ''wirejunction-2'', node_at_end_b = ''B.1''\<rparr>),
         (''S1'', \<lparr>node_at_end_a = ''wirejunction-3'', node_at_end_b = ''A.1''\<rparr>),
         (''S2'', \<lparr>node_at_end_a = ''wirejunction-3'', node_at_end_b = ''B.1''\<rparr>)]\<rparr>"




section \<open>Properties\<close>

subsection \<open>Label text\<close>

lemma py_replace_Nil [simp]: "py_replace old new [] = []"
  by (simp add: py_replace_def)

lemma py_replace_Cons:
  "py_replace old new (c # s) = (if c = old then new else [c]) @ py_replace old new s"
  by (simp add: py_replace_def)

lemma py_replace_append:
  "py_replace old new (s @ t) = py_replace old new s @ py_replace old new t"
  by (simp add: py_replace_def)

lemma escape_chain_char:
  "py_replace (CHR 0x27) ''&apos;''
     (py_replace (CHR 0x22) ''&quot;''
       (py_replace CHR ''>'' ''&gt;''
         (py_replace CHR ''<'' ''&lt;''
           (py_replace CHR ''&'' ''&amp;'' [c])))) = xml_escape_char c"
  by (simp add: py_replace_Cons xml_escape_char_def)

lemma escape_chain:
  "py_replace (CHR 0x27) ''&apos;''
     (py_replace (CHR 0x22) ''&quot;''
       (py_replace CHR ''>'' ''&gt;''
         (py_replace CHR ''<'' ''&lt;''
           (py_replace CHR ''&'' ''&amp;'' s)))) = concat (map xml_escape_char s)"
proof (induction s)
  case Nil
  show ?case by simp
next
  case (Cons c s)
  let ?e = "\<lambda>s. py_replace (CHR 0x27) ''&apos;''
     (py_replace (CHR 0x22) ''&quot;''
       (py_replace CHR ''>'' ''&gt;''
         (py_replace CHR ''<'' ''&lt;''
           (py_replace CHR ''&'' ''&amp;'' s))))"
  have "?e ([c] @ s) = ?e [c] @ ?e s"
    by (simp only: py_replace_append)
  then have "?e (c # s) = xml_escape_char c @ ?e s"
    using escape_chain_char [of c] by simp
  then show ?case
    using Cons.IH by simp
qed

lemma xml_escape_char_nonempty: "xml_escape_char c \<noteq> []"
  by (simp add: xml_escape_char_def)

lemma xml_escape_char_clean:
  "set (xml_escape_char c) \<inter> {CHR ''<'', CHR ''>'', CHR 0x22, CHR 0x27} = {}"
  by (simp add: xml_escape_char_def)

lemma py_strip_Nil: "py_strip [] = []"
  by (simp add: py_strip_def)

lemma py_strip_placeholder: "py_strip ''?'' \<noteq> []"
  by (simp add: py_strip_def py_isspace_def)

lemma label_text_str_not_blank: "py_strip (label_text_str text) \<noteq> []"
  by (simp add: label_text_str_def Let_def py_strip_placeholder)

lemma label_text_str_nonempty: "label_text_str text \<noteq> []"
  using label_text_str_not_blank [of "text"] py_strip_Nil by auto

text \<open>
  C10. Whatever text is given (also \<^verbatim>\<open>None\<close>, the empty string or only white space),
  the label text written between the \<^verbatim>\<open>text\<close> tags is not empty, it is the text (or the
  placeholder \<^verbatim>\<open>?\<close>) with each of the five characters \<^verbatim>\<open>& < > " '\<close> replaced by its
  entity, and no \<^verbatim>\<open>< > " '\<close> is left in it.
\<close>

theorem label_text_escaped_correct:
  "label_text_escaped text \<noteq> []
   \<and> label_text_escaped text = concat (map xml_escape_char (label_text_str text))
   \<and> py_strip (label_text_str text) \<noteq> []
   \<and> set (label_text_escaped text) \<inter> {CHR ''<'', CHR ''>'', CHR 0x22, CHR 0x27} = {}
   \<and> label_text_escaped None = ''?''
   \<and> (py_strip t = [] \<longrightarrow> label_text_escaped (Some t) = ''?'')"
proof -
  have eq: "label_text_escaped text = concat (map xml_escape_char (label_text_str text))"
    by (simp only: label_text_escaped_def escape_chain)
  obtain c s where cs: "label_text_str text = c # s"
    using label_text_str_nonempty [of "text"] by (cases "label_text_str text") auto
  have ne: "label_text_escaped text \<noteq> []"
    using eq cs xml_escape_char_nonempty [of c] by simp
  have clean: "set (label_text_escaped text) \<inter> {CHR ''<'', CHR ''>'', CHR 0x22, CHR 0x27} = {}"
    using xml_escape_char_clean unfolding eq by fastforce
  have none: "label_text_escaped None = ''?''"
    by (simp only: label_text_escaped_def escape_chain)
       (simp add: label_text_str_def py_strip_Nil xml_escape_char_def)
  have blank: "py_strip t = [] \<longrightarrow> label_text_escaped (Some t) = ''?''"
    by (simp only: label_text_escaped_def escape_chain)
       (simp add: label_text_str_def xml_escape_char_def)
  show ?thesis
    using eq ne clean none blank label_text_str_not_blank by blast
qed

theorem label_text_escaped_correct_witness:
  "py_strip '' '' = [] \<and> label_text_escaped (Some '' '') = ''?''
   \<and> label_text_escaped (Some ''a<b'') = ''a&lt;b''"
proof -
  have b: "py_strip '' '' = []"
    by (simp add: py_strip_def py_isspace_def)
  have s: "label_text_str (Some ''a<b'') = ''a<b''"
    by (simp add: label_text_str_def py_strip_def py_isspace_def)
  have e: "concat (map xml_escape_char ''a<b'') = ''a&lt;b''"
    by (simp add: xml_escape_char_def)
  show ?thesis
    using b s e label_text_escaped_correct [of "Some ''a<b''" "'' ''"] by simp
qed

subsection \<open>Dictionaries as association lists\<close>

lemma fold_dict_other:
  assumes step: "\<And>k v acc. map_of (step (k, v) acc) =
                   (case h k v of None \<Rightarrow> map_of acc | Some w \<Rightarrow> (map_of acc)(k \<mapsto> w))"
    and "k \<notin> fst ` set xs"
  shows "map_of (fold step xs acc) k = map_of acc k"
  using assms(2)
proof (induction xs arbitrary: acc)
  case Nil
  show ?case by simp
next
  case (Cons p xs)
  obtain k' v' where p: "p = (k', v')" by (cases p)
  have "k \<noteq> k'" using Cons.prems p by auto
  then have "map_of (step (k', v') acc) k = map_of acc k"
    by (simp add: step split: option.splits)
  then show ?case using Cons p by simp
qed

lemma fold_dict_hit:
  assumes step: "\<And>k v acc. map_of (step (k, v) acc) =
                   (case h k v of None \<Rightarrow> map_of acc | Some w \<Rightarrow> (map_of acc)(k \<mapsto> w))"
    and "distinct (map fst xs)" and "(k, v) \<in> set xs"
  shows "map_of (fold step xs acc) k =
           (case h k v of None \<Rightarrow> map_of acc k | Some w \<Rightarrow> Some w)"
  using assms(2,3)
proof (induction xs arbitrary: acc)
  case Nil
  then show ?case by simp
next
  case (Cons p xs)
  obtain k' v' where p: "p = (k', v')" by (cases p)
  show ?case
  proof (cases "(k, v) = p")
    case True
    then have "k \<notin> fst ` set xs" using Cons.prems(1) by force
    then have "map_of (fold step xs (step p acc)) k = map_of (step p acc) k"
      by (rule fold_dict_other [OF step])
    moreover have "map_of (step (k, v) acc) k =
        (case h k v of None \<Rightarrow> map_of acc k | Some w \<Rightarrow> Some w)"
      by (simp add: step split: option.splits)
    ultimately show ?thesis using True by auto
  next
    case False
    then have in_xs: "(k, v) \<in> set xs" using Cons.prems(2) by simp
    then have "k \<noteq> k'" using Cons.prems(1) p by force
    then have "map_of (step p acc) k = map_of acc k"
      by (simp add: p step split: option.splits)
    moreover have "map_of (fold step xs (step p acc)) k =
           (case h k v of None \<Rightarrow> map_of (step p acc) k | Some w \<Rightarrow> Some w)"
      using Cons.IH [OF _ in_xs] Cons.prems(1) by simp
    ultimately show ?thesis by (simp split: option.splits)
  qed
qed

subsection \<open>Pin compilation\<close>

lemma compile_instance_pins_lookup:
  assumes "distinct (map fst pins)" and "(pin_name, (px, py)) \<in> set pins"
  shows "map_of (compile_instance_pins info pins) pin_name =
           Some (inst_x info + fst (rotate_point px py (inst_rotate info)),
                 inst_y info - snd (rotate_point px py (inst_rotate info)))"
proof -
  let ?h = "\<lambda>(k::string) (v::coords).
              Some (inst_x info + fst (rotate_point (fst v) (snd v) (inst_rotate info)),
                    inst_y info - snd (rotate_point (fst v) (snd v) (inst_rotate info)))"
  show ?thesis
    unfolding compile_instance_pins_def
    using fold_dict_hit [where h = ?h, OF _ assms]
    by (simp add: update_conv' split_def Let_def)
qed

lemma compile_pin_locations_lookup:
  assumes "distinct (map fst insts)" and "(refdes, info) \<in> set insts"
    and "map_of syms (inst_lib_id info) = Some pins"
  shows "map_of (compile_pin_locations syms insts) refdes =
           Some (compile_instance_pins info pins)"
proof -
  let ?h = "\<lambda>(k::string) (v::lib_instance).
              (case map_of syms (inst_lib_id v) of None \<Rightarrow> None
               | Some pins \<Rightarrow> Some (compile_instance_pins v pins))"
  show ?thesis
    unfolding compile_pin_locations_def
    using fold_dict_hit [where h = ?h, OF _ assms(1,2)] assms(3)
    by (simp add: update_conv' split_def split: option.splits)
qed

text \<open>
  C6. For every placed instance whose symbol has pin data and every pin of that symbol,
  the compiled absolute pin location is the pin's relative offset rotated by the
  instance's rotation (counter-clockwise, in degrees) and then translated by the
  instance origin, the vertical sign being flipped only in the translation:
  \<open>absolute_x = instance_x + rotated_x\<close>, \<open>absolute_y = instance_y - rotated_y\<close>.
\<close>

theorem compile_pin_locations_correct:
  assumes "distinct (map fst locations_of_lib_instances)"
    and "(refdes, info) \<in> set locations_of_lib_instances"
    and "map_of pin_locations_of_lib_symbols (inst_lib_id info) = Some pins"
    and "distinct (map fst pins)"
    and "(pin_name, (px, py)) \<in> set pins"
  shows "\<exists>compiled.
           map_of (compile_pin_locations pin_locations_of_lib_symbols locations_of_lib_instances)
             refdes = Some compiled
         \<and> map_of compiled pin_name =
             Some (inst_x info + (px * cos (inst_rotate info * pi / 180)
                                   - py * sin (inst_rotate info * pi / 180)),
                   inst_y info - (px * sin (inst_rotate info * pi / 180)
                                   + py * cos (inst_rotate info * pi / 180)))"
  using compile_pin_locations_lookup [OF assms(1,2,3)]
        compile_instance_pins_lookup [OF assms(4,5), of info]
  by (simp add: rotate_point_def radians_def Let_def)

theorem compile_pin_locations_correct_witness:
  "\<exists>compiled.
     map_of (compile_pin_locations [(''S'', [(''1'', (1, 0))])]
        [(''U1'', \<lparr>inst_x = 10, inst_y = 20, inst_rotate = 90, inst_lib_id = ''S''\<rparr>)])
       ''U1'' = Some compiled
     \<and> map_of compiled ''1'' = Some (10, 19)"
proof -
  let ?info = "\<lparr>inst_x = 10, inst_y = 20, inst_rotate = 90, inst_lib_id = ''S''\<rparr>"
  have "\<exists>compiled.
     map_of (compile_pin_locations [(''S'', [(''1'', (1, 0))])] [(''U1'', ?info)])
       ''U1'' = Some compiled
     \<and> map_of compiled ''1'' =
         Some (inst_x ?info + (1 * cos (inst_rotate ?info * pi / 180)
                                - 0 * sin (inst_rotate ?info * pi / 180)),
               inst_y ?info - (1 * sin (inst_rotate ?info * pi / 180)
                                + 0 * cos (inst_rotate ?info * pi / 180)))"
    by (rule compile_pin_locations_correct [where pins = "[(''1'', (1, 0))]"]) simp_all
  then show ?thesis by simp
qed

subsection \<open>The arcsine offset\<close>

lemma delta_angle_from_count_cases:
  "delta_angle_from_count offset_mm radius_mm =
     (if radius_mm = 0 then Inr 0
      else if -1 \<le> offset_mm / radius_mm \<and> offset_mm / radius_mm \<le> 1
        then Inr (degrees (arcsin (offset_mm / radius_mm)))
      else Inr 0)"
  by (simp add: delta_angle_from_count_def asin_degrees_def py_truediv_def py_asin_def)

lemma delta_angle_from_count_total:
  "\<exists>d. delta_angle_from_count offset_mm radius_mm = Inr d"
  by (simp add: delta_angle_from_count_cases)

lemma place_instances_total:
  "\<exists>pts'. place_instances node_id node_mm radius_mm seg_angle seg_uuid num idx names pts = Inr pts'"
proof (induction names arbitrary: idx pts)
  case Nil
  show ?case by simp
next
  case (Cons name names)
  obtain d where "delta_angle_from_count (center_offset_from_count_mm idx num) radius_mm = Inr d"
    using delta_angle_from_count_total by blast
  then show ?case using Cons.IH by simp
qed

text \<open>
  C8. The angular offset never raises: for every component count \<open>n\<close> of the node, every
  number \<open>num\<close> of connections on the segment and every index \<open>idx\<close> the computation
  returns a value, and so does the whole placing loop of a segment. When the radius is
  zero (division by zero) or the linear offset is larger than the radius (arcsine
  outside its domain), the offset is 0; otherwise it is the arcsine in degrees.
\<close>

theorem delta_angle_never_raises:
  "(\<exists>d. delta_angle_from_count (center_offset_from_count_mm idx num) (node_radius_mm n) = Inr d)
   \<and> (\<exists>pts'. place_instances node_id node_mm (node_radius_mm n) seg_angle seg_uuid num idx names pts
                = Inr pts')
   \<and> (radius_mm = 0 \<or> \<bar>offset_mm\<bar> > \<bar>radius_mm\<bar>
        \<longrightarrow> delta_angle_from_count offset_mm radius_mm = Inr 0)
   \<and> (radius_mm \<noteq> 0 \<and> \<bar>offset_mm\<bar> \<le> \<bar>radius_mm\<bar>
        \<longrightarrow> delta_angle_from_count offset_mm radius_mm
              = Inr (degrees (arcsin (offset_mm / radius_mm))))"
proof -
  have big: "delta_angle_from_count offset_mm radius_mm = Inr 0"
    if "radius_mm \<noteq> 0" and "\<bar>offset_mm\<bar> > \<bar>radius_mm\<bar>"
  proof -
    have "\<bar>offset_mm / radius_mm\<bar> > 1"
      using that by (simp add: abs_divide)
    then have "\<not> (-1 \<le> offset_mm / radius_mm \<and> offset_mm / radius_mm \<le> 1)"
      by linarith
    then show ?thesis using that(1) by (auto simp: delta_angle_from_count_cases)
  qed
  have small: "delta_angle_from_count offset_mm radius_mm
                 = Inr (degrees (arcsin (offset_mm / radius_mm)))"
    if "radius_mm \<noteq> 0" and "\<bar>offset_mm\<bar> \<le> \<bar>radius_mm\<bar>"
  proof -
    have "\<bar>offset_mm / radius_mm\<bar> \<le> 1"
      using that by (simp add: abs_divide)
    then have "-1 \<le> offset_mm / radius_mm \<and> offset_mm / radius_mm \<le> 1"
      by linarith
    then show ?thesis using that(1) by (simp add: delta_angle_from_count_cases)
  qed
  have zero: "delta_angle_from_count offset_mm 0 = Inr 0"
    by (simp add: delta_angle_from_count_cases)
  show ?thesis
    using delta_angle_from_count_total place_instances_total big small zero by blast
qed

theorem delta_angle_never_raises_witness:
  "\<bar>center_offset_from_count_mm 4 4\<bar> > \<bar>node_radius_mm 1\<bar>
   \<and> delta_angle_from_count (center_offset_from_count_mm 4 4) (node_radius_mm 1) = Inr 0
   \<and> delta_angle_from_count (center_offset_from_count_mm 1 1) (node_radius_mm 0) = Inr 0"
proof -
  have h: "\<bar>center_offset_from_count_mm 4 4\<bar> > \<bar>node_radius_mm 1\<bar>"
    by (simp add: center_offset_from_count_mm_def node_radius_mm_def node_radius_inches_def
          segment_spacing_inches_def)
  have z: "node_radius_mm 0 = 0"
    by (simp add: node_radius_mm_def node_radius_inches_def)
  show ?thesis
    using h z
      delta_angle_never_raises [where offset_mm = "center_offset_from_count_mm 4 4"
        and radius_mm = "node_radius_mm 1"]
      delta_angle_never_raises [where offset_mm = "center_offset_from_count_mm 1 1"
        and radius_mm = "node_radius_mm 0"]
    by simp
qed

subsection \<open>Tangents of a point chain\<close>







lemma tangent_ab_at_minus_pi:
  assumes "atan2 ((snd b - snd a) * 25.4) ((fst b - fst a) * 25.4) = - pi"
  shows "tangent_ab atan2 a b = 180"
  using assms by (simp add: tangent_ab_def Let_def degrees_def)









subsection \<open>Breadth-first search\<close>

lemma walk_snoc:
  assumes "walk segs n p m" and "(u, info) \<in> set segs"
    and "(d = A_to_B \<and> node_at_end_a info = m \<and> node_at_end_b info = m')
       \<or> (d = B_to_A \<and> node_at_end_b info = m \<and> node_at_end_a info = m')"
  shows "walk segs n (p @ [(u, d)]) m'"
  using assms
proof (induction rule: walk.induct)
  case (walk_nil n)
  then show ?case by (auto intro: walk.intros)
next
  case (walk_ab u' info' n p m)
  then show ?case by (auto intro: walk.intros)
next
  case (walk_ba u' info' n p m)
  then show ?case by (auto intro: walk.intros)
qed

lemma walk_frontier:
  assumes "walk segs n r m" and "n \<in> V" and "m \<notin> V"
  shows "\<exists>r1 x y. length r1 < length r \<and> walk segs n r1 x \<and> x \<in> V \<and> adj segs x y \<and> y \<notin> V"
  using assms
proof (induction rule: walk.induct)
  case (walk_nil n)
  then show ?case by simp
next
  case (walk_ab u info n p m)
  show ?case
  proof (cases "node_at_end_b info \<in> V")
    case False
    have "adj segs n (node_at_end_b info)"
      using walk_ab.hyps(1,2) by (auto simp: adj_def)
    then have "length ([] :: bfs_path) < length ((u, A_to_B) # p) \<and> walk segs n [] n \<and> n \<in> V
        \<and> adj segs n (node_at_end_b info) \<and> node_at_end_b info \<notin> V"
      using False walk_ab.prems(1) walk.walk_nil [of segs n] by simp
    then show ?thesis by blast
  next
    case True
    then obtain r1 x y where r1: "length r1 < length p" "walk segs (node_at_end_b info) r1 x"
      "x \<in> V" "adj segs x y" "y \<notin> V"
      using walk_ab.IH walk_ab.prems(2) by blast
    have "walk segs n ((u, A_to_B) # r1) x"
      using walk_ab.hyps(1,2) r1(2) by (rule walk.walk_ab)
    then have "length ((u, A_to_B) # r1) < length ((u, A_to_B) # p) \<and> walk segs n ((u, A_to_B) # r1) x
        \<and> x \<in> V \<and> adj segs x y \<and> y \<notin> V"
      using r1 by simp
    then show ?thesis by blast
  qed
next
  case (walk_ba u info n p m)
  show ?case
  proof (cases "node_at_end_a info \<in> V")
    case False
    have "adj segs n (node_at_end_a info)"
      using walk_ba.hyps(1,2) by (auto simp: adj_def)
    then have "length ([] :: bfs_path) < length ((u, B_to_A) # p) \<and> walk segs n [] n \<and> n \<in> V
        \<and> adj segs n (node_at_end_a info) \<and> node_at_end_a info \<notin> V"
      using False walk_ba.prems(1) walk.walk_nil [of segs n] by simp
    then show ?thesis by blast
  next
    case True
    then obtain r1 x y where r1: "length r1 < length p" "walk segs (node_at_end_a info) r1 x"
      "x \<in> V" "adj segs x y" "y \<notin> V"
      using walk_ba.IH walk_ba.prems(2) by blast
    have "walk segs n ((u, B_to_A) # r1) x"
      using walk_ba.hyps(1,2) r1(2) by (rule walk.walk_ba)
    then have "length ((u, B_to_A) # r1) < length ((u, B_to_A) # p) \<and> walk segs n ((u, B_to_A) # r1) x
        \<and> x \<in> V \<and> adj segs x y \<and> y \<notin> V"
      using r1 by simp
    then show ?thesis by blast
  qed
qed

lemma new_node_minimal:
  assumes inv: "expand_inv segs src dst cur cp pre vis q"
    and "w \<notin> vis" and "walk segs src r w"
  shows "length cp + 1 \<le> length r"
proof -
  have src: "src \<in> vis" using inv by (simp add: expand_inv_def)
  obtain r1 x y where r1: "length r1 < length r" "walk segs src r1 x" "x \<in> vis"
      "adj segs x y" "y \<notin> vis"
    using walk_frontier [OF assms(3) src assms(2)] by blast
  have open_x: "\<not> closed_node segs vis x"
    using r1(4,5) by (auto simp: closed_node_def)
  have "length cp \<le> length r1"
  proof (cases "x = cur")
    case True
    then show ?thesis using inv r1(2) by (auto simp: expand_inv_def minimal_def)
  next
    case False
    then have "x \<in> fst ` set q"
      using inv r1(3) open_x unfolding expand_inv_def by blast
    then obtain px where px: "(x, px) \<in> set q" by auto
    then have "length cp \<le> length px" "minimal segs src px x"
      using inv by (auto simp: expand_inv_def queue_ok_def)
    then show ?thesis using r1(2) by (auto simp: minimal_def)
  qed
  then show ?thesis using r1(1) by simp
qed

lemma adj_append: "adj (pre @ rest) n m \<longleftrightarrow> adj pre n m \<or> adj rest n m"
  by (auto simp: adj_def)

lemma adj_single:
  "adj [(u, info)] n m \<longleftrightarrow>
     (node_at_end_a info = n \<and> node_at_end_b info = m)
   \<or> (node_at_end_b info = n \<and> node_at_end_a info = m)"
  by (simp add: adj_def)

lemma closed_node_mono: "closed_node segs vis n \<Longrightarrow> vis \<subseteq> vis' \<Longrightarrow> closed_node segs vis' n"
  by (auto simp: closed_node_def)

lemma expand_inv_skip:
  assumes inv: "expand_inv segs src dst cur cp pre vis q"
    and none: "bfs_next cur vis info = None"
  shows "expand_inv segs src dst cur cp (pre @ [(u, info)]) vis q"
proof -
  have cur: "cur \<in> vis" using inv by (simp add: expand_inv_def)
  have "m \<in> vis" if "adj [(u, info)] cur m" for m
    using that none cur by (auto simp: adj_single bfs_next_def split: if_splits)
  then show ?thesis
    using inv by (auto simp: expand_inv_def adj_append)
qed

lemma expand_inv_push:
  assumes inv: "expand_inv segs src dst cur cp pre vis q"
    and seg: "(u, info) \<in> set segs"
    and step: "(d = A_to_B \<and> node_at_end_a info = cur \<and> node_at_end_b info = w)
             \<or> (d = B_to_A \<and> node_at_end_b info = cur \<and> node_at_end_a info = w)"
    and fresh: "w \<notin> vis"
  shows "expand_inv segs src dst cur cp (pre @ [(u, info)]) (insert w vis) (q @ [(w, cp @ [(u, d)])])"
proof -
  have base: "src \<in> vis" "cur \<in> vis" "cur \<noteq> dst" "walk segs src cp cur" "minimal segs src cp cur"
    and qok: "queue_ok segs src vis q"
    and lens: "\<forall>(v, p) \<in> set q. length cp \<le> length p \<and> length p \<le> length cp + 1"
    and finished: "\<forall>n \<in> vis. n \<notin> fst ` set q \<longrightarrow> n \<noteq> cur \<longrightarrow> closed_node segs vis n \<and> n \<noteq> dst"
    and pre: "\<forall>m. adj pre cur m \<longrightarrow> m \<in> vis"
    using inv by (simp_all add: expand_inv_def)
  have w_walk: "walk segs src (cp @ [(u, d)]) w"
    using base(4) seg step by (rule walk_snoc)
  have w_min: "minimal segs src (cp @ [(u, d)]) w"
    unfolding minimal_def using new_node_minimal [OF inv fresh] by auto
  have sorted_q: "sorted (map (length \<circ> snd) (q @ [(w, cp @ [(u, d)])]))"
    using qok lens by (auto simp: queue_ok_def sorted_append)
  have entries: "\<forall>(v, p) \<in> set (q @ [(w, cp @ [(u, d)])]).
                   walk segs src p v \<and> v \<in> insert w vis \<and> minimal segs src p v"
    using qok w_walk w_min by (auto simp: queue_ok_def)
  have qok': "queue_ok segs src (insert w vis) (q @ [(w, cp @ [(u, d)])])"
    using sorted_q entries by (simp add: queue_ok_def)
  have lens': "\<forall>(v, p) \<in> set (q @ [(w, cp @ [(u, d)])]).
                 length cp \<le> length p \<and> length p \<le> length cp + 1"
    using lens by auto
  have done': "\<forall>n \<in> insert w vis. n \<notin> fst ` set (q @ [(w, cp @ [(u, d)])]) \<longrightarrow> n \<noteq> cur
                 \<longrightarrow> closed_node segs (insert w vis) n \<and> n \<noteq> dst"
  proof (intro ballI impI)
    fix n
    assume n: "n \<in> insert w vis" "n \<notin> fst ` set (q @ [(w, cp @ [(u, d)])])" "n \<noteq> cur"
    then have "n \<in> vis" "n \<notin> fst ` set q" by auto
    then have "closed_node segs vis n \<and> n \<noteq> dst" using finished n(3) by blast
    then show "closed_node segs (insert w vis) n \<and> n \<noteq> dst"
      using closed_node_mono [of segs vis n "insert w vis"] by auto
  qed
  have "w \<noteq> cur" using fresh base(2) by auto
  then have "m \<in> insert w vis" if "adj [(u, info)] cur m" for m
    using that step by (auto simp: adj_single)
  then have pre': "\<forall>m. adj (pre @ [(u, info)]) cur m \<longrightarrow> m \<in> insert w vis"
    using pre by (auto simp: adj_append)
  show ?thesis
    unfolding expand_inv_def
    using base qok' lens' done' pre' by (intro conjI) simp_all
qed

lemma bfs_expand_inv:
  assumes "expand_inv segs src dst cur cp pre vis q"
    and "set rest \<subseteq> set segs" and "[] \<notin> seg_nodes segs"
    and "bfs_expand cur cp rest (vis, q) = (vis', q')"
  shows "expand_inv segs src dst cur cp (pre @ rest) vis' q'"
  using assms(1,2,4)
proof (induction rest arbitrary: pre vis q)
  case Nil
  then show ?case by simp
next
  case (Cons s rest)
  obtain u info where s: "s = (u, info)" by (cases s)
  have seg: "(u, info) \<in> set segs" and sub: "set rest \<subseteq> set segs"
    using Cons.prems(2) s by auto
  have ne: "node_at_end_a info \<noteq> []" "node_at_end_b info \<noteq> []"
    using seg assms(3) by (force simp: seg_nodes_def)+
  show ?case
  proof (cases "bfs_next cur vis info")
    case None
    have inv': "expand_inv segs src dst cur cp (pre @ [(u, info)]) vis q"
      using Cons.prems(1) None by (rule expand_inv_skip)
    have run: "bfs_expand cur cp rest (vis, q) = (vis', q')"
      using Cons.prems(3) None by (simp add: s)
    have "expand_inv segs src dst cur cp ((pre @ [(u, info)]) @ rest) vis' q'"
      using inv' sub run by (rule Cons.IH)
    then show ?thesis by (simp add: s)
  next
    case (Some nd)
    obtain w d where nd: "nd = (w, d)" by (cases nd)
    have step: "(d = A_to_B \<and> node_at_end_a info = cur \<and> node_at_end_b info = w)
              \<or> (d = B_to_A \<and> node_at_end_b info = cur \<and> node_at_end_a info = w)"
      and fresh: "w \<notin> vis"
      using Some nd by (auto simp: bfs_next_def split: if_splits)
    have "w \<noteq> []" using step ne by auto
    then have run: "bfs_expand cur cp rest (insert w vis, q @ [(w, cp @ [(u, d)])]) = (vis', q')"
      using Cons.prems(3) Some nd by (simp add: s)
    have "expand_inv segs src dst cur cp (pre @ [(u, info)]) (insert w vis) (q @ [(w, cp @ [(u, d)])])"
      using Cons.prems(1) seg step fresh by (rule expand_inv_push)
    then have "expand_inv segs src dst cur cp ((pre @ [(u, info)]) @ rest) vis' q'"
      using sub run by (rule Cons.IH)
    then show ?thesis by (simp add: s)
  qed
qed

lemma bfs_inv_pop:
  assumes inv: "bfs_inv segs src dst vis ((cur, cp) # q)" and "cur \<noteq> dst"
  shows "expand_inv segs src dst cur cp [] vis q"
proof -
  have src: "src \<in> vis" and qok: "queue_ok segs src vis ((cur, cp) # q)"
    and bound: "\<forall>(v, p) \<in> set ((cur, cp) # q). length p \<le> length cp + 1"
    and finished: "\<forall>n \<in> vis. n \<notin> fst ` set ((cur, cp) # q) \<longrightarrow> closed_node segs vis n \<and> n \<noteq> dst"
    using inv by (simp_all add: bfs_inv_def)
  have head: "walk segs src cp cur" "cur \<in> vis" "minimal segs src cp cur"
    using qok by (simp_all add: queue_ok_def)
  have qok': "queue_ok segs src vis q"
    using qok by (simp add: queue_ok_def)
  have lens: "\<forall>(v, p) \<in> set q. length cp \<le> length p \<and> length p \<le> length cp + 1"
    using qok bound by (auto simp: queue_ok_def)
  have finished': "\<forall>n \<in> vis. n \<notin> fst ` set q \<longrightarrow> n \<noteq> cur \<longrightarrow> closed_node segs vis n \<and> n \<noteq> dst"
    using finished by auto
  have pre: "\<forall>m. adj [] cur m \<longrightarrow> m \<in> vis"
    by (simp add: adj_def)
  show ?thesis
    unfolding expand_inv_def
    using src head assms(2) qok' lens finished' pre by (intro conjI) simp_all
qed

lemma expand_inv_done:
  assumes inv: "expand_inv segs src dst cur cp segs vis q"
  shows "bfs_inv segs src dst vis q"
proof -
  have src: "src \<in> vis" and cur: "cur \<in> vis" "cur \<noteq> dst"
    and qok: "queue_ok segs src vis q"
    and lens: "\<forall>(v, p) \<in> set q. length cp \<le> length p \<and> length p \<le> length cp + 1"
    and finished: "\<forall>n \<in> vis. n \<notin> fst ` set q \<longrightarrow> n \<noteq> cur \<longrightarrow> closed_node segs vis n \<and> n \<noteq> dst"
    and all: "\<forall>m. adj segs cur m \<longrightarrow> m \<in> vis"
    using inv by (simp_all add: expand_inv_def)
  have bound: "\<forall>(v, p) \<in> set q. length p \<le> length (snd (hd q)) + 1"
  proof (cases q)
    case Nil
    then show ?thesis by simp
  next
    case (Cons e q')
    then have "length cp \<le> length (snd (hd q))"
      using lens by (cases e) auto
    then show ?thesis using lens by fastforce
  qed
  have "closed_node segs vis cur" using all by (simp add: closed_node_def)
  then have finished': "\<forall>n \<in> vis. n \<notin> fst ` set q \<longrightarrow> closed_node segs vis n \<and> n \<noteq> dst"
    using finished cur(2) by blast
  show ?thesis
    unfolding bfs_inv_def using src qok bound finished' by (intro conjI) simp_all
qed

lemma bfs_inv_empty_unreachable:
  assumes inv: "bfs_inv segs src dst vis []" and "walk segs src r dst"
  shows False
proof -
  have src: "src \<in> vis"
    and finished: "\<forall>n \<in> vis. closed_node segs vis n \<and> n \<noteq> dst"
    using inv by (simp_all add: bfs_inv_def)
  then have "dst \<notin> vis" by blast
  then obtain x y where "x \<in> vis" "adj segs x y" "y \<notin> vis"
    using walk_frontier [OF assms(2) src] by blast
  then show False using finished by (auto simp: closed_node_def)
qed

lemma bfs_loop_correct:
  assumes "bfs_inv segs src dst vis q" and "[] \<notin> seg_nodes segs"
  shows "case bfs_loop segs dst q vis of
           None \<Rightarrow> \<forall>r. \<not> walk segs src r dst
         | Some p \<Rightarrow> walk segs src p dst \<and> minimal segs src p dst"
  using assms
proof (induction segs dst q vis rule: bfs_loop.induct)
  case (1 segs dst vis)
  then show ?case using bfs_inv_empty_unreachable by auto
next
  case (2 segs dst cur cp q vis)
  show ?case
  proof (cases "cur = dst")
    case True
    then show ?thesis using "2.prems"(1) by (simp add: bfs_inv_def queue_ok_def)
  next
    case False
    obtain vis' q' where run: "bfs_expand cur cp segs (vis, q) = (vis', q')"
      by (cases "bfs_expand cur cp segs (vis, q)")
    have "expand_inv segs src dst cur cp [] vis q"
      using "2.prems"(1) False by (rule bfs_inv_pop)
    then have "expand_inv segs src dst cur cp ([] @ segs) vis' q'"
      using _ "2.prems"(2) run by (rule bfs_expand_inv) simp
    then have inv': "bfs_inv segs src dst vis' q'"
      using expand_inv_done by simp
    have "case bfs_loop segs dst q' vis' of
            None \<Rightarrow> \<forall>r. \<not> walk segs src r dst
          | Some p \<Rightarrow> walk segs src p dst \<and> minimal segs src p dst"
      using "2.IH" [OF False run [symmetric] inv' "2.prems"(2)] .
    then show ?thesis using False run by simp
  qed
qed

lemma bfs_inv_start: "bfs_inv segs src dst {src} [(src, [])]"
  by (auto simp: bfs_inv_def queue_ok_def minimal_def intro: walk.intros)

lemma from_request [simp]: "from_node_id (request n fr fc tr tc) = fr @ ''.'' @ fc"
  by (simp add: from_node_id_def node_id_of_def request_def)

lemma to_request [simp]: "to_node_id (request n fr fc tr tc) = tr @ ''.'' @ tc"
  by (simp add: to_node_id_def node_id_of_def request_def)

lemma two_routes_bfs:
  "bfs_loop (segments two_routes) ''B.1'' [(''A.1'', [])] {''A.1''} = Some [(''S1'', B_to_A), (''S2'', A_to_B)]"
  by (simp add: two_routes_def bfs_next_def)

lemma two_routes_long:
  "walk (segments two_routes) ''A.1'' [(''L1'', A_to_B), (''L2'', A_to_B), (''L3'', B_to_A), (''L4'', A_to_B)] ''B.1''"
  by (rule walk.intros, simp add: two_routes_def, simp, simp)+ (simp add: walk.intros)

text \<open>
  C4. In a graph whose node ids are not empty strings (as the graph builder makes them),
  for a connection whose two endpoint nodes are in the graph and are joined by some path
  \<open>r\<close>, the resolver succeeds and stores a path \<open>p\<close> that starts at the from-node, ends at
  the to-node and has at most as many segments as \<open>r\<close>: no path between the endpoints is
  shorter.
\<close>

theorem bfs_minimum_hop:
  assumes "map_of (nodes g) (from_node_id inst) \<noteq> None"
    and "map_of (nodes g) (to_node_id inst) \<noteq> None"
    and "[] \<notin> seg_nodes (segments g)"
    and "walk (segments g) (from_node_id inst) r (to_node_id inst)"
  shows "\<exists>p. resolve_instance g inst =
               Inr (inst\<lparr>graph_path_segments := Some (map fst p),
                         graph_path_directions := Some (map snd p),
                         total_segments := Some (length p)\<rparr>)
           \<and> walk (segments g) (from_node_id inst) p (to_node_id inst)
           \<and> length p \<le> length r"
proof -
  let ?res = "bfs_loop (segments g) (to_node_id inst) [(from_node_id inst, [])] {from_node_id inst}"
  have c: "case ?res of
             None \<Rightarrow> \<forall>r. \<not> walk (segments g) (from_node_id inst) r (to_node_id inst)
           | Some p \<Rightarrow> walk (segments g) (from_node_id inst) p (to_node_id inst)
                        \<and> minimal (segments g) (from_node_id inst) p (to_node_id inst)"
    using bfs_inv_start assms(3) by (rule bfs_loop_correct)
  then obtain p where p: "?res = Some p" using assms(4) by (cases ?res) auto
  then have "walk (segments g) (from_node_id inst) p (to_node_id inst)" "length p \<le> length r"
    using c assms(4) by (auto simp: minimal_def)
  moreover have "resolve_instance g inst =
               Inr (inst\<lparr>graph_path_segments := Some (map fst p),
                         graph_path_directions := Some (map snd p),
                         total_segments := Some (length p)\<rparr>)"
    using assms(1,2) p by (auto simp: resolve_instance_def)
  ultimately show ?thesis by blast
qed

lemma two_routes_resolved:
  "resolve_instance two_routes (request ''net1'' ''A'' ''1'' ''B'' ''1'') =
     Inr ((request ''net1'' ''A'' ''1'' ''B'' ''1'')
            \<lparr>graph_path_segments := Some [''S1'', ''S2''],
             graph_path_directions := Some [B_to_A, A_to_B],
             total_segments := Some 2\<rparr>)"
proof -
  have "map_of (nodes two_routes) ''A.1'' \<noteq> None" "map_of (nodes two_routes) ''B.1'' \<noteq> None"
    by (simp_all add: two_routes_def)
  then show ?thesis
    by (simp del: bfs_loop.simps add: resolve_instance_def two_routes_bfs)
qed

theorem bfs_minimum_hop_witness:
  "resolve_instance two_routes (request ''net1'' ''A'' ''1'' ''B'' ''1'') =
     Inr ((request ''net1'' ''A'' ''1'' ''B'' ''1'')
            \<lparr>graph_path_segments := Some [''S1'', ''S2''],
             graph_path_directions := Some [B_to_A, A_to_B],
             total_segments := Some 2\<rparr>)
   \<and> (\<exists>p. resolve_instance two_routes (request ''net1'' ''A'' ''1'' ''B'' ''1'') =
             Inr ((request ''net1'' ''A'' ''1'' ''B'' ''1'')
                    \<lparr>graph_path_segments := Some (map fst p),
                     graph_path_directions := Some (map snd p),
                     total_segments := Some (length p)\<rparr>)
          \<and> walk (segments two_routes) ''A.1'' p ''B.1''
          \<and> length p \<le> 4)"
proof -
  have n: "map_of (nodes two_routes) (from_node_id (request ''net1'' ''A'' ''1'' ''B'' ''1'')) \<noteq> None"
    "map_of (nodes two_routes) (to_node_id (request ''net1'' ''A'' ''1'' ''B'' ''1'')) \<noteq> None"
    by (simp_all add: two_routes_def)
  have e: "[] \<notin> seg_nodes (segments two_routes)"
    by (simp add: seg_nodes_def two_routes_def)
  have w: "walk (segments two_routes) (from_node_id (request ''net1'' ''A'' ''1'' ''B'' ''1''))
             [(''L1'', A_to_B), (''L2'', A_to_B), (''L3'', B_to_A), (''L4'', A_to_B)]
             (to_node_id (request ''net1'' ''A'' ''1'' ''B'' ''1''))"
    using two_routes_long by simp
  have "length [(''L1'', A_to_B), (''L2'', A_to_B), (''L3'', B_to_A), (''L4'', A_to_B)] = 4"
    by simp
  then show ?thesis
    using bfs_minimum_hop [OF n e w] two_routes_resolved
    by (simp only: from_request to_request append.simps)
qed

subsection \<open>The loop over the requested connections\<close>

lemma resolve_loop_Inl:
  "fold_err (\<lambda>inst resolved.
                 case resolve_instance g inst of
                   Inl e \<Rightarrow> Inl e
                 | Inr inst' \<Rightarrow> Inr (resolved @ [inst'])) instances acc = Inl e
   \<longleftrightarrow> (\<exists>before bad after. instances = before @ bad # after
          \<and> list_all (\<lambda>i. \<not> isl (resolve_instance g i)) before
          \<and> resolve_instance g bad = Inl e)"
proof (induction instances arbitrary: acc)
  case Nil
  show ?case by simp
next
  case (Cons i instances)
  show ?case
  proof (cases "resolve_instance g i")
    case (Inl e')
    have "(\<exists>before bad after. i # instances = before @ bad # after
          \<and> list_all (\<lambda>i. \<not> isl (resolve_instance g i)) before
          \<and> resolve_instance g bad = Inl e) \<longleftrightarrow> e' = e"
    proof
      assume "\<exists>before bad after. i # instances = before @ bad # after
          \<and> list_all (\<lambda>i. \<not> isl (resolve_instance g i)) before
          \<and> resolve_instance g bad = Inl e"
      then obtain before bad after where h: "i # instances = before @ bad # after"
        "list_all (\<lambda>i. \<not> isl (resolve_instance g i)) before" "resolve_instance g bad = Inl e"
        by blast
      show "e' = e"
      proof (cases before)
        case Nil
        then show ?thesis using h Inl by simp
      next
        case (Cons b bs)
        then have "b = i" using h(1) by simp
        then show ?thesis using h(2) Cons Inl by simp
      qed
    next
      assume "e' = e"
      then have "i # instances = [] @ i # instances \<and> list_all (\<lambda>i. \<not> isl (resolve_instance g i)) []
          \<and> resolve_instance g i = Inl e"
        using Inl by simp
      then show "\<exists>before bad after. i # instances = before @ bad # after
          \<and> list_all (\<lambda>i. \<not> isl (resolve_instance g i)) before
          \<and> resolve_instance g bad = Inl e"
        by blast
    qed
    then show ?thesis using Inl by simp
  next
    case (Inr i')
    have "(\<exists>before bad after. i # instances = before @ bad # after
          \<and> list_all (\<lambda>i. \<not> isl (resolve_instance g i)) before
          \<and> resolve_instance g bad = Inl e)
      \<longleftrightarrow> (\<exists>before bad after. instances = before @ bad # after
          \<and> list_all (\<lambda>i. \<not> isl (resolve_instance g i)) before
          \<and> resolve_instance g bad = Inl e)" (is "?L \<longleftrightarrow> ?R")
    proof
      assume ?L
      then obtain before bad after where h: "i # instances = before @ bad # after"
        "list_all (\<lambda>i. \<not> isl (resolve_instance g i)) before" "resolve_instance g bad = Inl e"
        by blast
      show ?R
      proof (cases before)
        case Nil
        then show ?thesis using h Inr by simp
      next
        case (Cons b bs)
        then have "instances = bs @ bad # after \<and> list_all (\<lambda>i. \<not> isl (resolve_instance g i)) bs"
          using h by simp
        then show ?thesis using h(3) by blast
      qed
    next
      assume ?R
      then obtain before bad after where h: "instances = before @ bad # after"
        "list_all (\<lambda>i. \<not> isl (resolve_instance g i)) before" "resolve_instance g bad = Inl e"
        by blast
      then have "i # instances = (i # before) @ bad # after
          \<and> list_all (\<lambda>i. \<not> isl (resolve_instance g i)) (i # before)"
        using Inr by simp
      then show ?L using h(3) by blast
    qed
    then show ?thesis using Inr Cons.IH by simp
  qed
qed

lemma resolve_loop_Inr:
  "fold_err (\<lambda>inst resolved.
                 case resolve_instance g inst of
                   Inl e \<Rightarrow> Inl e
                 | Inr inst' \<Rightarrow> Inr (resolved @ [inst'])) instances acc = Inr res
   \<longleftrightarrow> (\<exists>new. res = acc @ new \<and> list_all2 (\<lambda>i i'. resolve_instance g i = Inr i') instances new)"
proof (induction instances arbitrary: acc res)
  case Nil
  show ?case by auto
next
  case (Cons i instances)
  show ?case
  proof (cases "resolve_instance g i")
    case (Inl e')
    then show ?thesis by (auto simp: list_all2_Cons1)
  next
    case (Inr i')
    then show ?thesis using Cons.IH [of "acc @ [i']" res]
      by (auto simp: list_all2_Cons1)
  qed
qed

lemma resolve_instance_error_names:
  assumes "resolve_instance g inst = Inl e"
  shows "\<exists>before after. e = ValueError (before @ instance_name inst @ after)"
proof -
  consider
      "e = ValueError ((''From node '' @ [CHR 0x27] @ from_node_id inst @ [CHR 0x27]
               @ '' not found in graph for '') @ instance_name inst @ [])"
    | "e = ValueError ((''To node '' @ [CHR 0x27] @ to_node_id inst @ [CHR 0x27]
               @ '' not found in graph for '') @ instance_name inst @ [])"
    | "e = ValueError (''No path found for '' @ instance_name inst @ ('': ''
                    @ from_node_id inst @ '' '' @ [CHR 0xE2, CHR 0x86, CHR 0x92] @ '' ''
                    @ to_node_id inst))"
    using assms by (auto simp: resolve_instance_def split: if_splits option.splits)
  then show ?thesis by cases blast+
qed

lemma resolve_instance_fails_iff:
  assumes "[] \<notin> seg_nodes (segments g)"
  shows "isl (resolve_instance g inst) \<longleftrightarrow>
           map_of (nodes g) (from_node_id inst) = None
         \<or> map_of (nodes g) (to_node_id inst) = None
         \<or> (\<forall>r. \<not> walk (segments g) (from_node_id inst) r (to_node_id inst))"
proof -
  let ?res = "bfs_loop (segments g) (to_node_id inst) [(from_node_id inst, [])] {from_node_id inst}"
  have "case ?res of
             None \<Rightarrow> \<forall>r. \<not> walk (segments g) (from_node_id inst) r (to_node_id inst)
           | Some p \<Rightarrow> walk (segments g) (from_node_id inst) p (to_node_id inst)
                        \<and> minimal (segments g) (from_node_id inst) p (to_node_id inst)"
    using bfs_inv_start assms by (rule bfs_loop_correct)
  then have "?res = None \<longleftrightarrow> (\<forall>r. \<not> walk (segments g) (from_node_id inst) r (to_node_id inst))"
    by (cases ?res) auto
  then show ?thesis
    by (auto simp: resolve_instance_def split: option.splits)
qed

text \<open>
  C1 (as amended). A connection whose from-node or to-node is not in the graph, or whose
  endpoints no path joins, raises a \<^verbatim>\<open>ValueError\<close> whose message contains the name of that
  connection. The exception is not caught: the run ends with the error of the first such
  connection, the connections before it having been resolved, and no later connection is
  looked at. Only when every connection resolves does the loop return, with one resolved
  instance per request.
\<close>

theorem resolve_all_stops_at_first_error:
  "(resolve_all g instances = Inl e \<longleftrightarrow>
      (\<exists>before bad after. instances = before @ bad # after
          \<and> list_all (\<lambda>i. \<not> isl (resolve_instance g i)) before
          \<and> resolve_instance g bad = Inl e))
   \<and> (resolve_all g instances = Inr res \<longleftrightarrow>
        list_all2 (\<lambda>i i'. resolve_instance g i = Inr i') instances res)
   \<and> (resolve_instance g inst = Inl e \<longrightarrow>
        (\<exists>before after. e = ValueError (before @ instance_name inst @ after)))
   \<and> ([] \<notin> seg_nodes (segments g) \<longrightarrow>
        (isl (resolve_instance g inst) \<longleftrightarrow>
           map_of (nodes g) (from_node_id inst) = None
         \<or> map_of (nodes g) (to_node_id inst) = None
         \<or> (\<forall>r. \<not> walk (segments g) (from_node_id inst) r (to_node_id inst))))"
  unfolding resolve_all_def
  using resolve_loop_Inl [of g instances "[]" e] resolve_loop_Inr [of g instances "[]" res]
    resolve_instance_error_names [of g inst e] resolve_instance_fails_iff [of g inst]
  by simp

lemma example_line_bad_request:
  "resolve_instance example_line (request ''net9'' ''X'' ''9'' ''B'' ''1'') =
     Inl (ValueError (''From node '' @ [CHR 0x27] @ ''X.9'' @ [CHR 0x27]
            @ '' not found in graph for net9''))"
  by (simp add: resolve_instance_def example_line_def) (simp add: request_def)

lemma example_line_good_request:
  "resolve_instance example_line (request ''net1'' ''A'' ''1'' ''B'' ''1'') =
     Inr ((request ''net1'' ''A'' ''1'' ''B'' ''1'')
            \<lparr>graph_path_segments := Some [''W1''],
             graph_path_directions := Some [A_to_B],
             total_segments := Some 1\<rparr>)"
  by (simp add: resolve_instance_def example_line_def bfs_next_def)

theorem resolve_all_stops_at_first_error_witness:
  "resolve_all example_line
     [request ''net1'' ''A'' ''1'' ''B'' ''1'', request ''net9'' ''X'' ''9'' ''B'' ''1'',
      request ''net1'' ''A'' ''1'' ''B'' ''1'']
   = Inl (ValueError (''From node '' @ [CHR 0x27] @ ''X.9'' @ [CHR 0x27]
            @ '' not found in graph for net9''))
   \<and> (\<exists>before after. ValueError (''From node '' @ [CHR 0x27] @ ''X.9'' @ [CHR 0x27]
            @ '' not found in graph for net9'')
         = ValueError (before @ instance_name (request ''net9'' ''X'' ''9'' ''B'' ''1'') @ after))"
proof -
  let ?good = "request ''net1'' ''A'' ''1'' ''B'' ''1''"
  let ?bad = "request ''net9'' ''X'' ''9'' ''B'' ''1''"
  let ?e = "ValueError (''From node '' @ [CHR 0x27] @ ''X.9'' @ [CHR 0x27]
            @ '' not found in graph for net9'')"
  have "[?good, ?bad, ?good] = [?good] @ ?bad # [?good]
      \<and> list_all (\<lambda>i. \<not> isl (resolve_instance example_line i)) [?good]
      \<and> resolve_instance example_line ?bad = Inl ?e"
    using example_line_bad_request example_line_good_request by simp
  then have ex: "\<exists>before bad after. [?good, ?bad, ?good] = before @ bad # after
      \<and> list_all (\<lambda>i. \<not> isl (resolve_instance example_line i)) before
      \<and> resolve_instance example_line bad = Inl ?e"
    by blast
  show ?thesis
    using resolve_all_stops_at_first_error [of example_line "[?good, ?bad, ?good]" ?e _ ?bad]
      ex example_line_bad_request
    by blast
qed

text \<open>
  The claim as stated fails: with a bad connection first, the run ends with its error and
  the good connection after it is never resolved.
\<close>

theorem bad_connection_is_fatal:
  "resolve_all example_line
     [request ''net9'' ''X'' ''9'' ''B'' ''1'', request ''net1'' ''A'' ''1'' ''B'' ''1'']
   = Inl (ValueError (''From node '' @ [CHR 0x27] @ ''X.9'' @ [CHR 0x27]
            @ '' not found in graph for net9''))"
  using example_line_bad_request by (simp add: resolve_all_def)

subsection \<open>Graph builder\<close>




lemma update_entry_present: "(k, v) \<in> set (AList.update k v al)"
  by (induction al) auto





































lemma py_round_of_int: "py_round (of_int k) = k"
  by (simp add: py_round_def)

lemma rounded_at_output_precision: "at_output_precision (py_round_ndigits v OUTPUT_PRECISION)"
proof -
  have "py_round_ndigits v OUTPUT_PRECISION * 10 ^ OUTPUT_PRECISION
          = of_int (py_round (v * 10 ^ OUTPUT_PRECISION))"
    by (simp add: py_round_ndigits_def)
  then show ?thesis
    unfolding at_output_precision_def
    by (simp add: py_round_ndigits_def [of "py_round_ndigits v OUTPUT_PRECISION"] py_round_of_int)
       (simp add: py_round_ndigits_def)
qed












subsection \<open>Bundle points\<close>



















end
